theory Spec2Isabelle
  imports Main "HOL-Library.Sublist" "HOL-Library.Multiset"
begin

section \<open>The extension-hook framework (misago/hooks)\<close>

text \<open>
  \<^verbatim>\<open>misago/hooks/__init__.py\<close> imports \<^verbatim>\<open>ActionHook\<close> and \<^verbatim>\<open>FilterHook\<close> from
  \<^verbatim>\<open>.action\<close> and \<^verbatim>\<open>.filter\<close> and instantiates the typed hooks of \<^verbatim>\<open>.filters\<close>; the
  three modules are not part of the sources at hand. The two hook engines are therefore
  modelled from the specification (sections 3, 4.1, 4.2 and 7), every such definition
  being marked.
\<close>

subsection \<open>Interceptors as interaction trees\<close>

text \<open>
  Modelled from the spec: the interceptor callables of \<^verbatim>\<open>filter.py\<close> (absent). Section
  4.2 lists what an interceptor does with its arguments and its \<^verbatim>\<open>next\<close> handle: it
  returns a value, it raises, it calls \<^verbatim>\<open>next\<close> with possibly modified arguments zero
  or more times and goes on with the value \<^verbatim>\<open>next\<close> returned, and it may be impure
  (it reads and writes a state \<open>'s\<close> outside the hook). Catching an error of \<^verbatim>\<open>next\<close>
  is not among the listed capabilities: a raise aborts the whole chain.
\<close>

datatype ('a, 'r, 'e, 's) body =
    Return 'r
  | Raise 'e
  | CallNext 'a "'r \<Rightarrow> ('a, 'r, 'e, 's) body"
  | ReadState "'s \<Rightarrow> ('a, 'r, 'e, 's) body"
  | WriteState 's "('a, 'r, 'e, 's) body"

text \<open>
  Modelled from the spec: the observable events of one \<^verbatim>\<open>invoke\<close>. A link of the chain
  is a registered interceptor (named by the label it was registered under) or the
  terminal default callable; the log records each call of a link and each raise.
\<close>

datatype 'l link = Interceptor 'l | Default

datatype ('l, 'e) event = Called "'l link" | Raised "'l link" 'e

type_synonym ('l, 'r, 'e, 's) outcome = "('e + 'r) \<times> 's \<times> ('l, 'e) event list"

text \<open>
  Modelled from the spec: one activation of an interceptor labelled \<open>l\<close> whose
  \<^verbatim>\<open>next\<close> handle is \<open>nxt\<close>. The result is what the interceptor returns (\<open>Inr\<close>) or
  the error that leaves it (\<open>Inl\<close>), the state it leaves behind and the events in the
  order they happened. An error coming out of \<^verbatim>\<open>next\<close> leaves the interceptor
  unchanged.
\<close>

primrec run_body ::
  "'l \<Rightarrow> ('a \<Rightarrow> 's \<Rightarrow> ('l, 'r, 'e, 's) outcome) \<Rightarrow> ('a, 'r, 'e, 's) body \<Rightarrow> 's
    \<Rightarrow> ('l, 'r, 'e, 's) outcome"
where
  "run_body l nxt (Return r) = (\<lambda>s. (Inr r, s, []))"
| "run_body l nxt (Raise e) = (\<lambda>s. (Inl e, s, [Raised (Interceptor l) e]))"
| "run_body l nxt (CallNext a k) = (\<lambda>s.
     case nxt a s of
       (Inl e, s', t) \<Rightarrow> (Inl e, s', t)
     | (Inr r, s', t) \<Rightarrow>
         (case run_body l nxt (k r) s' of (res, s'', t') \<Rightarrow> (res, s'', t @ t')))"
| "run_body l nxt (ReadState k) = (\<lambda>s. run_body l nxt (k s) s)"
| "run_body l nxt (WriteState s' b) = (\<lambda>s. run_body l nxt b s')"

subsection \<open>InterceptionHook\<close>

text \<open>
  Modelled from the spec: an entry of the ordered interceptor sequence of section 3, the
  interceptor with the label and the priority it was registered under.
\<close>

record ('l, 'a, 'r, 'e, 's) entry =
  entry_label :: 'l
  entry_priority :: int
  entry_body :: "'a \<Rightarrow> ('a, 'r, 'e, 's) body"

text \<open>
  Modelled from the spec: the InterceptionHook of section 3 (\<^verbatim>\<open>FilterHook\<close> in
  \<^verbatim>\<open>filter.py\<close>, absent): the ordered interceptors, the one terminal default callable
  given at construction (it may raise and may be impure), and the priority a registration
  gets when it names none.
\<close>

record ('l, 'a, 'r, 'e, 's) interception_hook =
  interceptors :: "('l, 'a, 'r, 'e, 's) entry list"
  default_callable :: "'a \<Rightarrow> 's \<Rightarrow> ('e + 'r) \<times> 's"
  default_priority :: int

definition new_interception_hook ::
  "('a \<Rightarrow> 's \<Rightarrow> ('e + 'r) \<times> 's) \<Rightarrow> int \<Rightarrow> ('l, 'a, 'r, 'e, 's) interception_hook"
where
  "new_interception_hook d p0 =
     \<lparr>interceptors = [], default_callable = d, default_priority = p0\<rparr>"

text \<open>
  Modelled from the spec: the ordered insertion of \<^verbatim>\<open>register\<close> (sections 3 and 4.2):
  "ordered by priority then registration order (stable)". The new element goes behind
  every element whose priority is not greater than its own.
\<close>

fun insert_by_priority :: "('x \<Rightarrow> int) \<Rightarrow> 'x \<Rightarrow> 'x list \<Rightarrow> 'x list" where
  "insert_by_priority key x [] = [x]"
| "insert_by_priority key x (y # ys) =
     (if key x < key y then x # y # ys else y # insert_by_priority key x ys)"

text \<open>
  Modelled from the spec: \<^verbatim>\<open>register(interceptor, priority=default)\<close> of section 4.2.
\<close>

definition interception_register ::
  "('l, 'a, 'r, 'e, 's) interception_hook \<Rightarrow> 'l \<Rightarrow> ('a \<Rightarrow> ('a, 'r, 'e, 's) body) \<Rightarrow> int option
    \<Rightarrow> ('l, 'a, 'r, 'e, 's) interception_hook"
where
  "interception_register h l f priority =
     h\<lparr>interceptors :=
         insert_by_priority entry_priority
           \<lparr>entry_label = l,
            entry_priority = (case priority of None \<Rightarrow> default_priority h | Some p \<Rightarrow> p),
            entry_body = f\<rparr>
           (interceptors h)\<rparr>"

text \<open>
  Modelled from the spec: the bound chain of section 4.2. The first interceptor is called
  with the arguments and, as \<^verbatim>\<open>next\<close>, the chain of the remaining interceptors; the
  tail of the chain is the default callable.
\<close>

primrec chain ::
  "('l, 'a, 'r, 'e, 's) entry list \<Rightarrow> ('a \<Rightarrow> 's \<Rightarrow> ('e + 'r) \<times> 's) \<Rightarrow> 'a \<Rightarrow> 's
    \<Rightarrow> ('l, 'r, 'e, 's) outcome"
where
  "chain [] d = (\<lambda>a s.
     case d a s of
       (Inl e, s') \<Rightarrow> (Inl e, s', [Called Default, Raised Default e])
     | (Inr r, s') \<Rightarrow> (Inr r, s', [Called Default]))"
| "chain (i # rest) d = (\<lambda>a s.
     case run_body (entry_label i) (chain rest d) (entry_body i a) s of
       (res, s', t) \<Rightarrow> (res, s', Called (Interceptor (entry_label i)) # t))"

text \<open>Modelled from the spec: \<^verbatim>\<open>invoke(*args)\<close> of section 4.2.\<close>

definition interception_invoke ::
  "('l, 'a, 'r, 'e, 's) interception_hook \<Rightarrow> 'a \<Rightarrow> 's \<Rightarrow> ('l, 'r, 'e, 's) outcome"
where
  "interception_invoke h a s = chain (interceptors h) (default_callable h) a s"

text \<open>
  A run of plugin loading: the registrations \<open>(label, priority, interceptor)\<close> applied
  in the order of the list.
\<close>

definition interception_register_all ::
  "('l, 'a, 'r, 'e, 's) interception_hook
    \<Rightarrow> ('l \<times> int option \<times> ('a \<Rightarrow> ('a, 'r, 'e, 's) body)) list
    \<Rightarrow> ('l, 'a, 'r, 'e, 's) interception_hook"
where
  "interception_register_all h regs =
     foldl (\<lambda>h' (l, p, f). interception_register h' l f p) h regs"

text \<open>The entry a registration makes in a hook whose default priority is \<open>p0\<close>.\<close>

definition entry_of ::
  "int \<Rightarrow> 'l \<times> int option \<times> ('a \<Rightarrow> ('a, 'r, 'e, 's) body) \<Rightarrow> ('l, 'a, 'r, 'e, 's) entry"
where
  "entry_of p0 reg =
     (case reg of (l, p, f) \<Rightarrow>
        \<lparr>entry_label = l,
         entry_priority = (case p of None \<Rightarrow> p0 | Some q \<Rightarrow> q),
         entry_body = f\<rparr>)"

text \<open>The links a log shows as called, in the order of the calls.\<close>

primrec calls :: "('l, 'e) event list \<Rightarrow> 'l link list" where
  "calls [] = []"
| "calls (ev # t) = (case ev of Called l \<Rightarrow> l # calls t | Raised l e \<Rightarrow> calls t)"

text \<open>The raises a log shows.\<close>

primrec raises :: "('l, 'e) event list \<Rightarrow> ('l link \<times> 'e) list" where
  "raises [] = []"
| "raises (ev # t) = (case ev of Called l \<Rightarrow> raises t | Raised l e \<Rightarrow> (l, e) # raises t)"

text \<open>The links of a hook in chain order: its interceptors, then the default.\<close>

definition links :: "('l, 'a, 'r, 'e, 's) entry list \<Rightarrow> 'l link list" where
  "links es = map (\<lambda>i. Interceptor (entry_label i)) es @ [Default]"

text \<open>
  A call sequence follows the chain order \<open>ls\<close> when, at every moment of the run, the
  links called so far are the first links of \<open>ls\<close>: no link is called before each link
  ahead of it has been called.
\<close>

definition follows_order :: "'x list \<Rightarrow> 'x list \<Rightarrow> bool" where
  "follows_order ls t = (\<forall>n. \<exists>m. set (take n t) = set (take m ls))"

text \<open>
  What an interceptor does with its \<^verbatim>\<open>next\<close> handle, whatever the state: it never
  calls it; it returns \<open>v\<close> without calling it; it calls it exactly once and then
  returns a value; it calls it exactly once and returns what it got.
\<close>

primrec never_calls_next :: "('a, 'r, 'e, 's) body \<Rightarrow> bool" where
  "never_calls_next (Return r) = True"
| "never_calls_next (Raise e) = True"
| "never_calls_next (CallNext a k) = False"
| "never_calls_next (ReadState k) = (\<forall>s. never_calls_next (k s))"
| "never_calls_next (WriteState s b) = never_calls_next b"

primrec returns_value :: "'r \<Rightarrow> ('a, 'r, 'e, 's) body \<Rightarrow> bool" where
  "returns_value v (Return r) = (r = v)"
| "returns_value v (Raise e) = False"
| "returns_value v (CallNext a k) = False"
| "returns_value v (ReadState k) = (\<forall>s. returns_value v (k s))"
| "returns_value v (WriteState s b) = returns_value v b"

primrec calls_next_once :: "('a, 'r, 'e, 's) body \<Rightarrow> bool" where
  "calls_next_once (Return r) = False"
| "calls_next_once (Raise e) = False"
| "calls_next_once (CallNext a k) = (\<forall>r. \<exists>v. returns_value v (k r))"
| "calls_next_once (ReadState k) = (\<forall>s. calls_next_once (k s))"
| "calls_next_once (WriteState s b) = calls_next_once b"




text \<open>
  What one activation of an interceptor does before \<^verbatim>\<open>next\<close> comes into play, as a
  function of the state it starts in. \<open>answer_without_next b s\<close> is the answer of an
  activation that ends without calling \<^verbatim>\<open>next\<close>: the value it returns (\<open>Inr\<close>) or the
  error it raises (\<open>Inl\<close>); it is \<open>None\<close> when the activation calls \<^verbatim>\<open>next\<close>.
  \<open>forwarded b s\<close> is the first call of \<^verbatim>\<open>next\<close> the activation makes: the arguments
  it passes on and the state at that moment; it is \<open>None\<close> when the activation ends
  without calling \<^verbatim>\<open>next\<close>.
\<close>

primrec answer_without_next :: "('a, 'r, 'e, 's) body \<Rightarrow> 's \<Rightarrow> ('e + 'r) option" where
  "answer_without_next (Return r) = (\<lambda>s. Some (Inr r))"
| "answer_without_next (Raise e) = (\<lambda>s. Some (Inl e))"
| "answer_without_next (CallNext a k) = (\<lambda>s. None)"
| "answer_without_next (ReadState k) = (\<lambda>s. answer_without_next (k s) s)"
| "answer_without_next (WriteState s' b) = (\<lambda>s. answer_without_next b s')"

primrec forwarded :: "('a, 'r, 'e, 's) body \<Rightarrow> 's \<Rightarrow> ('a \<times> 's) option" where
  "forwarded (Return r) = (\<lambda>s. None)"
| "forwarded (Raise e) = (\<lambda>s. None)"
| "forwarded (CallNext a k) = (\<lambda>s. Some (a, s))"
| "forwarded (ReadState k) = (\<lambda>s. forwarded (k s) s)"
| "forwarded (WriteState s' b) = (\<lambda>s. forwarded b s')"

text \<open>
  The arguments and the state with which the chain is first entered behind the
  interceptors \<open>pre\<close>, when \<^verbatim>\<open>invoke\<close> starts with \<open>a\<close> in state \<open>s\<close>: each
  interceptor of \<open>pre\<close> in turn passes on what it forwards. It is \<open>None\<close> when one of
  them ends without calling \<^verbatim>\<open>next\<close>.
\<close>

primrec reaches :: "('l, 'a, 'r, 'e, 's) entry list \<Rightarrow> 'a \<Rightarrow> 's \<Rightarrow> ('a \<times> 's) option" where
  "reaches [] a s = Some (a, s)"
| "reaches (x # pre) a s =
     (case forwarded (entry_body x a) s of
        None \<Rightarrow> None
      | Some (a', s') \<Rightarrow> reaches pre a' s')"

text \<open>The parts of an outcome: the result, the state left behind and the log.\<close>

abbreviation result_of :: "'x \<times> 'y \<times> 'z \<Rightarrow> 'x" where "result_of out \<equiv> fst out"

abbreviation state_of :: "'x \<times> 'y \<times> 'z \<Rightarrow> 'y" where "state_of out \<equiv> fst (snd out)"

abbreviation log_of :: "'x \<times> 'y \<times> 'z \<Rightarrow> 'z" where "log_of out \<equiv> snd (snd out)"

text \<open>
  An outcome in which a raise, if there is one, is the last event and is the error that
  comes out: a run that returns a value logged no raise, and a run that ends in the error
  \<open>e\<close> logged exactly one raise, of \<open>e\<close>, with nothing after it.
\<close>

definition raise_is_last :: "('l, 'r, 'e, 's) outcome \<Rightarrow> bool" where
  "raise_is_last out =
     (case result_of out of
        Inr r \<Rightarrow> raises (log_of out) = []
      | Inl e \<Rightarrow> (\<exists>l t0. log_of out = t0 @ [Raised l e] \<and> raises t0 = []))"

subsection \<open>NotificationHook\<close>












subsection \<open>The directive contribution point\<close>

text \<open>The error taxonomy of section 7 that a registration can meet.\<close>

datatype hook_error = RegistrationError

text \<open>
  \<^verbatim>\<open>graphql_directives_hook: Dict[str, Type[SchemaDirectiveVisitor]] = {}\<close>
  (\<^verbatim>\<open>hooks/__init__.py\<close>, line 32): a plain dictionary from directive name to directive
  implementation, empty at module load.
\<close>

definition graphql_directives_hook :: "string \<rightharpoonup> 'd" where
  "graphql_directives_hook = Map.empty"

text \<open>
  A plugin contributes a directive by item assignment on that dictionary,
  \<^verbatim>\<open>graphql_directives_hook[name] = directive\<close>: the dictionary has no other
  registration interface. Item assignment inserts the key or replaces its value and
  raises nothing, so the result is always \<open>Inr\<close>.
\<close>

definition register_directive ::
  "string \<Rightarrow> 'd \<Rightarrow> (string \<rightharpoonup> 'd) \<Rightarrow> hook_error + (string \<rightharpoonup> 'd)" where
  "register_directive name directive hook = Inr (hook(name \<mapsto> directive))"

section \<open>The theme admin views (misago/themes/admin/views.py)\<close>

subsection \<open>Requests, messages and the theme table\<close>

text \<open>
  The messages the views hand to \<^verbatim>\<open>django.contrib.messages\<close>, by level. The texts are
  the views' class attributes and format strings; form errors carry the text the form
  produced.
\<close>

datatype level = Info | Success | Error

datatype message =
    ActiveThemeChanged string
  | MessageSuccess
  | MessagePartialSuccess
  | MessageSubmit
  | FormError string

type_synonym messages = "(level \<times> message) list"

text \<open>
  A row of the \<^verbatim>\<open>Theme\<close> table with the fields the views read, and a \<^verbatim>\<open>Theme\<close> instance:
  a row together with its primary key. The table maps primary keys to rows.
\<close>

record theme_row =
  theme_name :: string
  is_default :: bool
  is_active :: bool

record theme = theme_row +
  pk :: int

type_synonym theme_table = "int \<rightharpoonup> theme_row"

text \<open>\<^verbatim>\<open>Theme.objects.update(...)\<close>: every row of the table is updated.\<close>

definition objects_update :: "(theme_row \<Rightarrow> theme_row) \<Rightarrow> theme_table \<Rightarrow> theme_table" where
  "objects_update f tbl = (\<lambda>k. map_option f (tbl k))"

text \<open>\<^verbatim>\<open>Theme.objects.filter(pk=k).update(...)\<close>: the row with that key, if there is one.\<close>

definition objects_filter_pk_update ::
  "int \<Rightarrow> (theme_row \<Rightarrow> theme_row) \<Rightarrow> theme_table \<Rightarrow> theme_table" where
  "objects_filter_pk_update k f tbl =
     (case tbl k of None \<Rightarrow> tbl | Some r \<Rightarrow> tbl(k \<mapsto> f r))"

text \<open>
  The state the theme views act on: the theme table, the theme cache (of
  \<^verbatim>\<open>misago/themes/cache.py\<close>, which is not at hand: its \<^verbatim>\<open>clear_theme_cache\<close> is a
  parameter \<open>clear\<close> of the views below) and the messages of the request.
\<close>

record 'c site =
  themes :: theme_table
  theme_cache :: 'c
  request_messages :: messages

text \<open>
  \<^verbatim>\<open>set_theme_as_active(request, theme)\<close>, lines 65 to 68.
\<close>

definition set_theme_as_active :: "('c \<Rightarrow> 'c) \<Rightarrow> theme \<Rightarrow> 'c site \<Rightarrow> 'c site" where
  "set_theme_as_active clear theme st =
     (let tbl1 = objects_update (\<lambda>r. r\<lparr>is_active := False\<rparr>) (themes st);
          tbl2 = objects_filter_pk_update (pk theme) (\<lambda>r. r\<lparr>is_active := True\<rparr>) tbl1
      in st\<lparr>themes := tbl2, theme_cache := clear (theme_cache st)\<rparr>)"

text \<open>\<^verbatim>\<open>ActivateTheme.button_action(request, target)\<close>, lines 58 to 62.\<close>

definition button_action :: "('c \<Rightarrow> 'c) \<Rightarrow> theme \<Rightarrow> 'c site \<Rightarrow> 'c site" where
  "button_action clear target st =
     (let st1 = set_theme_as_active clear target st
      in st1\<lparr>request_messages :=
               request_messages st1 @ [(Success, ActiveThemeChanged (theme_name target))]\<rparr>)"

text \<open>The themes a table marks active.\<close>

definition active_themes :: "theme_table \<Rightarrow> int set" where
  "active_themes tbl = {k. \<exists>r. tbl k = Some r \<and> is_active r}"

subsection \<open>Deleting theme assets\<close>

text \<open>
  \<^verbatim>\<open>DeleteThemeAssets.clean_items_list(request)\<close>, lines 148 to 152. \<open>posted\<close> is
  \<^verbatim>\<open>request.POST.getlist("item")\<close>, a list of strings. \<open>int_of\<close> is Python's
  \<^verbatim>\<open>int\<close> on a string: \<open>Some n\<close> where it returns \<open>n\<close>, \<open>None\<close> where it raises
  ValueError. The set comprehension raises as soon as one conversion does, and the
  method then returns None; the set is held as a list without duplicates.
\<close>

definition clean_items_list :: "(string \<Rightarrow> int option) \<Rightarrow> string list \<Rightarrow> int list option" where
  "clean_items_list int_of posted =
     (case those (map int_of (take 20 posted)) of
        None \<Rightarrow> None
      | Some ns \<Rightarrow> Some (remdups ns))"

text \<open>
  \<^verbatim>\<open>DeleteThemeAssets.delete_asset(queryset, item)\<close>, lines 154 to 158. The queryset is
  the theme's \<^verbatim>\<open>css\<close> or \<^verbatim>\<open>media\<close> relation, a table from primary key to asset;
  \<^verbatim>\<open>get\<close> raises ObjectDoesNotExist for a key that is not there, which is passed over.
\<close>

definition delete_asset :: "(int \<rightharpoonup> 'x) \<Rightarrow> int \<Rightarrow> (int \<rightharpoonup> 'x)" where
  "delete_asset queryset item =
     (case queryset item of None \<Rightarrow> queryset | Some x \<Rightarrow> queryset(item := None))"

record 'x assets_state =
  queryset :: "int \<rightharpoonup> 'x"
  asset_messages :: messages

text \<open>
  \<^verbatim>\<open>DeleteThemeAssets.action(request, theme)\<close>, lines 139 to 146. \<^verbatim>\<open>if items:\<close> is
  false for None and for the empty set.
\<close>

definition delete_assets_action ::
  "(string \<Rightarrow> int option) \<Rightarrow> string list \<Rightarrow> 'x assets_state \<Rightarrow> 'x assets_state" where
  "delete_assets_action int_of posted st =
     (case clean_items_list int_of posted of
        None \<Rightarrow> st
      | Some items \<Rightarrow>
          if items = [] then st
          else st\<lparr>queryset := foldl delete_asset (queryset st) items,
                  asset_messages := asset_messages st @ [(Success, MessageSubmit)]\<rparr>)"

text \<open>
  \<^verbatim>\<open>ThemeAssetsActionAdmin.real_dispatch\<close>, lines 88 to 92: the action runs for a POST
  only (the redirect that follows in either case changes no state).
\<close>

definition delete_assets_dispatch ::
  "(string \<Rightarrow> int option) \<Rightarrow> string \<Rightarrow> string list \<Rightarrow> 'x assets_state \<Rightarrow> 'x assets_state" where
  "delete_assets_dispatch int_of method posted st =
     (if method = ''POST'' then delete_assets_action int_of posted st else st)"

text \<open>The assets a request deleted: the keys of the table before that are gone after.\<close>

definition deleted_assets :: "'x assets_state \<Rightarrow> 'x assets_state \<Rightarrow> int set" where
  "deleted_assets st st' = dom (queryset st) - dom (queryset st')"

subsection \<open>Uploading theme assets\<close>

text \<open>
  What \<^verbatim>\<open>UploadThemeAssets.action\<close> reads of the bound form (\<^verbatim>\<open>UploadCssForm\<close> or
  \<^verbatim>\<open>UploadMediaForm\<close> of \<^verbatim>\<open>forms.py\<close>, which is not at hand): the verdict of
  \<^verbatim>\<open>is_valid()\<close>, \<^verbatim>\<open>cleaned_data.get("assets")\<close> (None when the key is missing) and
  \<^verbatim>\<open>errors["assets"]\<close> (None when the key is missing, where the subscript raises
  KeyError).
\<close>

record 'f upload_form =
  is_valid :: bool
  cleaned_assets :: "'f list option"
  assets_errors :: "string list option"

datatype py_error = KeyError string

text \<open>
  The state the upload acts on: the database \<open>'d\<close> that \<^verbatim>\<open>form.save()\<close> writes (the
  method is a parameter \<open>save\<close>), the queue of \<^verbatim>\<open>build_theme_css.delay(pk)\<close> tasks and
  the messages of the request.
\<close>

record 'd upload_state =
  database :: 'd
  build_theme_css_queue :: "int list"
  upload_messages :: messages

text \<open>Python's truth value of \<^verbatim>\<open>cleaned_data.get("assets")\<close>.\<close>

definition truthy :: "'f list option \<Rightarrow> bool" where
  "truthy v = (case v of None \<Rightarrow> False | Some xs \<Rightarrow> xs \<noteq> [])"

text \<open>\<^verbatim>\<open>UploadThemeAssets.action(request, theme)\<close>, lines 108 to 122.\<close>

definition upload_assets_action ::
  "('f upload_form \<Rightarrow> 'd \<Rightarrow> 'd) \<Rightarrow> theme \<Rightarrow> 'f upload_form \<Rightarrow> 'd upload_state
    \<Rightarrow> py_error + 'd upload_state" where
  "upload_assets_action save theme form st =
     (case
        (if \<not> is_valid form then
           (let st1 =
              (if truthy (cleaned_assets form)
               then st\<lparr>upload_messages := upload_messages st @ [(Info, MessagePartialSuccess)]\<rparr>
               else st)
            in case assets_errors form of
                 None \<Rightarrow> Inl (KeyError ''assets'')
               | Some errors \<Rightarrow>
                   Inr (st1\<lparr>upload_messages :=
                              upload_messages st1 @ map (\<lambda>e. (Error, FormError e)) errors\<rparr>))
         else Inr st)
      of
        Inl err \<Rightarrow> Inl err
      | Inr st2 \<Rightarrow>
          if truthy (cleaned_assets form)
          then Inr (st2\<lparr>database := save form (database st2),
                        build_theme_css_queue := build_theme_css_queue st2 @ [pk theme],
                        upload_messages := upload_messages st2 @ [(Success, MessageSuccess)]\<rparr>)
          else Inr st2)"

section \<open>Concrete inputs\<close>

subsection \<open>Hooks\<close>

text \<open>
  Interceptors over integer arguments and results, with string errors and one integer cell
  as outside state: the default callable of an extension point, one that is not
  implemented (scenario B) and one that reads the state; an interceptor that forwards and
  returns what it got, one that forwards the arguments increased by one, one that doubles
  what it got, one that returns 5 without forwarding, one that returns its argument
  without forwarding, one that raises on a negative argument and forwards otherwise, one
  that raises after \<^verbatim>\<open>next\<close> has returned, one that answers from the cache once the
  cache is filled, one that counts its activations in the state before it forwards, one
  that answers with the content of the state, and one that calls \<^verbatim>\<open>next\<close> twice.
\<close>

type_synonym example_body = "(int, int, string, int option) body"

definition plain_default :: "int \<Rightarrow> int option \<Rightarrow> (string + int) \<times> int option" where
  "plain_default a s = (Inr (a + 1), s)"

definition unimplemented_default :: "int \<Rightarrow> int option \<Rightarrow> (string + int) \<times> int option" where
  "unimplemented_default a s = (Inl ''NotImplementedError'', s)"

definition pass_through :: "int \<Rightarrow> example_body" where
  "pass_through a = CallNext a (\<lambda>r. Return r)"

definition doubling :: "int \<Rightarrow> example_body" where
  "doubling a = CallNext a (\<lambda>r. Return (2 * r))"

definition short_circuit :: "int \<Rightarrow> example_body" where
  "short_circuit a = Return 5"

definition shifting :: "int \<Rightarrow> example_body" where
  "shifting a = CallNext (a + 1) (\<lambda>r. Return r)"

definition echo :: "int \<Rightarrow> example_body" where
  "echo a = Return a"

definition guard :: "int \<Rightarrow> example_body" where
  "guard a = (if a < 0 then Raise ''denied'' else CallNext a (\<lambda>r. Return r))"

definition late_raise :: "int \<Rightarrow> example_body" where
  "late_raise a = CallNext a (\<lambda>r. Raise ''late'')"

definition tally :: "int \<Rightarrow> example_body" where
  "tally a =
     ReadState (\<lambda>s. WriteState (Some (case s of None \<Rightarrow> 1 | Some n \<Rightarrow> n + 1))
       (CallNext a (\<lambda>r. Return r)))"

definition answering :: "int \<Rightarrow> example_body" where
  "answering a = ReadState (\<lambda>s. case s of None \<Rightarrow> Return 0 | Some n \<Rightarrow> Return n)"

definition twice :: "int \<Rightarrow> example_body" where
  "twice a = CallNext a (\<lambda>r. CallNext r (\<lambda>r'. ReadState (\<lambda>s. Return (r + r'))))"

definition stateful_default :: "int \<Rightarrow> int option \<Rightarrow> (string + int) \<times> int option" where
  "stateful_default a s = (case s of None \<Rightarrow> (Inl ''empty'', s) | Some n \<Rightarrow> (Inr (a + n), s))"

definition caching :: "int \<Rightarrow> example_body" where
  "caching a =
     ReadState (\<lambda>s. case s of
        None \<Rightarrow> CallNext a (\<lambda>r. WriteState (Some r) (Return r))
      | Some r \<Rightarrow> Return r)"

definition scenario_c_regs :: "(string \<times> int option \<times> (int \<Rightarrow> example_body)) list" where
  "scenario_c_regs = [(''ten'', Some 10, pass_through), (''five'', Some 5, pass_through)]"




definition guard_hook :: "(string, int, int, string, int option) interception_hook" where
  "guard_hook =
     interception_register_all (new_interception_hook plain_default 0)
       [(''shift'', Some 1, shifting), (''guard'', Some 2, guard), (''inner'', Some 3, pass_through)]"

definition late_hook :: "(string, int, int, string, int option) interception_hook" where
  "late_hook =
     interception_register_all (new_interception_hook plain_default 0)
       [(''late'', None, late_raise)]"









subsection \<open>Theme views\<close>

text \<open>A theme table with two themes, the first one active, and the second theme as instance.\<close>

definition example_site :: "nat site" where
  "example_site =
     \<lparr>themes =
        [1 \<mapsto> \<lparr>theme_name = ''default'', is_default = True, is_active = True\<rparr>,
         2 \<mapsto> \<lparr>theme_name = ''custom'', is_default = False, is_active = False\<rparr>],
      theme_cache = 0,
      request_messages = []\<rparr>"

definition example_theme :: theme where
  "example_theme = \<lparr>theme_name = ''custom'', is_default = False, is_active = False, pk = 2\<rparr>"

text \<open>
  An instance of \<open>int_of\<close> for the examples: Python's \<^verbatim>\<open>int\<close> on the strings made of
  ASCII decimal digits only, where it is the value of the numeral. (Python accepts more
  strings: a sign, surrounding whitespace, underscores between digits. The theorems hold
  for every \<open>int_of\<close>.)
\<close>

definition digit :: "char \<Rightarrow> int option" where
  "digit c =
     (if 48 \<le> (of_char c :: nat) \<and> (of_char c :: nat) \<le> 57
      then Some (int (of_char c) - 48) else None)"

fun decimal_from :: "int \<Rightarrow> string \<Rightarrow> int option" where
  "decimal_from n [] = Some n"
| "decimal_from n (c # cs) =
     (case digit c of None \<Rightarrow> None | Some d \<Rightarrow> decimal_from (10 * n + d) cs)"

definition decimal :: "string \<Rightarrow> int option" where
  "decimal s = (if s = [] then None else decimal_from 0 s)"

text \<open>The css files 3, 7 and 9 of a theme.\<close>

definition example_assets :: "string assets_state" where
  "example_assets =
     \<lparr>queryset = [3 \<mapsto> ''base.css'', 7 \<mapsto> ''print.css'', 9 \<mapsto> ''dark.css''],
      asset_messages = []\<rparr>"

text \<open>
  An upload of two files of which one passed cleaning: the form is invalid, keeps the
  accepted file and holds one error.
\<close>

definition example_form :: "string upload_form" where
  "example_form =
     \<lparr>is_valid = False,
      cleaned_assets = Some [''site.css''],
      assets_errors = Some [''logo.exe: file type is not allowed'']\<rparr>"

definition example_upload_state :: "string list upload_state" where
  "example_upload_state =
     \<lparr>database = [], build_theme_css_queue = [], upload_messages = []\<rparr>"

definition example_save :: "string upload_form \<Rightarrow> string list \<Rightarrow> string list" where
  "example_save form db = db @ (case cleaned_assets form of None \<Rightarrow> [] | Some xs \<Rightarrow> xs)"

section \<open>Properties of the hook framework\<close>

subsection \<open>Registration keeps the sequence a stable sort by priority\<close>

lemma insert_by_priority_mset:
  "mset (insert_by_priority key x ys) = add_mset x (mset ys)"
  by (induction ys) auto

lemma insert_by_priority_set:
  "set (insert_by_priority key x ys) = insert x (set ys)"
  by (induction ys) auto

lemma insert_by_priority_sorted:
  "sorted (map key ys) \<Longrightarrow> sorted (map key (insert_by_priority key x ys))"
  by (induction ys) (auto simp: insert_by_priority_set)

lemma insert_by_priority_filter:
  "sorted (map key ys) \<Longrightarrow>
   filter (\<lambda>y. key y = p) (insert_by_priority key x ys) =
     filter (\<lambda>y. key y = p) ys @ (if key x = p then [x] else [])"
proof (induction ys)
  case Nil
  then show ?case by simp
next
  case (Cons y ys)
  show ?case
  proof (cases "key x < key y")
    case True
    have "filter (\<lambda>z. key z = p) (y # ys) = []" if "key x = p"
      using Cons.prems True that by (auto simp: filter_empty_conv)
    with True show ?thesis by auto
  next
    case False
    with Cons show ?thesis by auto
  qed
qed

lemma insert_all_sorted:
  "sorted (map key es) \<Longrightarrow>
   sorted (map key (foldl (\<lambda>acc x. insert_by_priority key x acc) es xs))"
  by (induction xs arbitrary: es) (simp_all add: insert_by_priority_sorted)

lemma insert_all_mset:
  "mset (foldl (\<lambda>acc x. insert_by_priority key x acc) es xs) = mset es + mset xs"
  by (induction xs arbitrary: es) (simp_all add: insert_by_priority_mset)

lemma insert_all_filter:
  "sorted (map key es) \<Longrightarrow>
   filter (\<lambda>y. key y = p) (foldl (\<lambda>acc x. insert_by_priority key x acc) es xs) =
     filter (\<lambda>y. key y = p) es @ filter (\<lambda>y. key y = p) xs"
  by (induction xs arbitrary: es)
    (simp_all add: insert_by_priority_sorted insert_by_priority_filter)

lemma insert_all_sort_key:
  "foldl (\<lambda>acc x. insert_by_priority key x acc) [] xs = sort_key key xs"
proof (rule sym, rule properties_for_sort_key)
  show "mset (foldl (\<lambda>acc x. insert_by_priority key x acc) [] xs) = mset xs"
    by (simp add: insert_all_mset)
  show "sorted (map key (foldl (\<lambda>acc x. insert_by_priority key x acc) [] xs))"
    by (simp add: insert_all_sorted)
  fix k
  have "filter (\<lambda>y. key y = key k) (foldl (\<lambda>acc x. insert_by_priority key x acc) [] xs) =
      filter (\<lambda>y. key y = key k) xs"
    by (simp add: insert_all_filter)
  then show "filter (\<lambda>x. key k = key x) (foldl (\<lambda>acc x. insert_by_priority key x acc) [] xs) =
      filter (\<lambda>x. key k = key x) xs"
    by (simp add: eq_commute [of "key k"])
qed

lemma interception_register_all_Nil: "interception_register_all h [] = h"
  by (simp add: interception_register_all_def)

lemma interception_register_all_Cons:
  "interception_register_all h ((l, p, f) # regs) =
     interception_register_all (interception_register h l f p) regs"
  by (simp add: interception_register_all_def)

lemma interception_register_fields:
  "interceptors (interception_register h l f p) =
     insert_by_priority entry_priority (entry_of (default_priority h) (l, p, f)) (interceptors h)"
  "default_priority (interception_register h l f p) = default_priority h"
  "default_callable (interception_register h l f p) = default_callable h"
  by (simp_all add: interception_register_def entry_of_def)

lemma interception_register_all_fields:
  "interceptors (interception_register_all h regs) =
     foldl (\<lambda>acc x. insert_by_priority entry_priority x acc) (interceptors h)
       (map (entry_of (default_priority h)) regs) \<and>
   default_priority (interception_register_all h regs) = default_priority h \<and>
   default_callable (interception_register_all h regs) = default_callable h"
proof (induction regs arbitrary: h)
  case Nil
  then show ?case by (simp add: interception_register_all_Nil)
next
  case (Cons reg regs)
  obtain l p f where reg: "reg = (l, p, f)" by (cases reg)
  show ?case
    unfolding reg interception_register_all_Cons
    by (simp add: Cons.IH interception_register_fields)
qed

lemma registered_interceptors:
  "interceptors (interception_register_all (new_interception_hook d p0) regs) =
     sort_key entry_priority (map (entry_of p0) regs)"
  by (simp add: interception_register_all_fields new_interception_hook_def insert_all_sort_key)

subsection \<open>Logs of a run\<close>

lemma calls_append: "calls (t @ t') = calls t @ calls t'"
  by (induction t) (auto split: event.splits)

lemma raises_append: "raises (t @ t') = raises t @ raises t'"
  by (induction t) (auto split: event.splits)

lemma run_body_never_calls_next:
  "never_calls_next b \<Longrightarrow> run_body l nxt b s = run_body l nxt' b s"
  by (induction b arbitrary: s) auto

lemma run_body_never_calls_next_calls:
  "never_calls_next b \<Longrightarrow> calls (log_of (run_body l nxt b s)) = []"
  by (induction b arbitrary: s) auto

lemma run_body_returns_value:
  "returns_value v b \<Longrightarrow>
   result_of (run_body l nxt b s) = Inr v \<and> log_of (run_body l nxt b s) = []"
  by (induction b arbitrary: s) auto

lemma run_body_calls_subset:
  assumes "\<And>a s. set (calls (log_of (nxt a s))) \<subseteq> T"
  shows "set (calls (log_of (run_body l nxt b s))) \<subseteq> T"
proof (induction b arbitrary: s)
  case (CallNext a k)
  show ?case
  proof (cases "nxt a s")
    case (fields res s' t)
    have t: "set (calls t) \<subseteq> T" using assms [of a s] fields by simp
    show ?thesis
    proof (cases res)
      case (Inl e)
      with fields t show ?thesis by simp
    next
      case (Inr r)
      have "set (calls (log_of (run_body l nxt (k r) s'))) \<subseteq> T"
        by (rule CallNext.IH) simp
      with fields Inr t show ?thesis
        by (auto simp: calls_append split: prod.splits)
    qed
  qed
qed auto

lemma raises_empty_no_raise: "raises t = [] \<Longrightarrow> Raised l e \<notin> set t"
  by (induction t) (auto split: event.splits)

lemma calls_no_default:
  "set (calls t) \<subseteq> (\<lambda>x. Interceptor (f x)) ` A \<Longrightarrow> Default \<notin> set (calls t)"
  by auto

subsection \<open>The chain is walked in order\<close>

lemma follows_order_Nil: "follows_order ls []"
  unfolding follows_order_def
proof
  fix n show "\<exists>m. set (take n []) = set (take m ls)"
    by (rule exI [of _ 0]) simp
qed

lemma follows_order_Cons:
  assumes "follows_order ls t"
  shows "follows_order (x # ls) (x # t)"
  unfolding follows_order_def
proof
  fix n
  show "\<exists>m. set (take n (x # t)) = set (take m (x # ls))"
  proof (cases n)
    case 0
    then show ?thesis by (intro exI [of _ 0]) simp
  next
    case (Suc k)
    from assms obtain m where "set (take k t) = set (take m ls)"
      unfolding follows_order_def by blast
    then have "set (take (Suc k) (x # t)) = set (take (Suc m) (x # ls))" by simp
    with Suc show ?thesis by blast
  qed
qed

lemma follows_order_append:
  assumes "follows_order ls t1" and "follows_order ls t2"
  shows "follows_order ls (t1 @ t2)"
  unfolding follows_order_def
proof
  fix n
  show "\<exists>m. set (take n (t1 @ t2)) = set (take m ls)"
  proof (cases "n \<le> length t1")
    case True
    then have "take n (t1 @ t2) = take n t1" by simp
    with assms(1) show ?thesis unfolding follows_order_def by metis
  next
    case False
    from assms(1) obtain m1 where m1: "set (take (length t1) t1) = set (take m1 ls)"
      unfolding follows_order_def by blast
    from assms(2) obtain m2 where m2: "set (take (n - length t1) t2) = set (take m2 ls)"
      unfolding follows_order_def by blast
    have "set (take n (t1 @ t2)) = set (take m1 ls) \<union> set (take m2 ls)"
      using m1 m2 False by simp
    also have "\<dots> = set (take (max m1 m2) ls)"
    proof (cases "m1 \<le> m2")
      case True
      then have "set (take m1 ls) \<subseteq> set (take m2 ls)" by (rule set_take_subset_set_take)
      with True show ?thesis by (auto simp: max_def)
    next
      case False
      then have "set (take m2 ls) \<subseteq> set (take m1 ls)"
        by (intro set_take_subset_set_take) simp
      with False show ?thesis by (auto simp: max_def)
    qed
    finally show ?thesis by blast
  qed
qed

lemma run_body_follows_order:
  assumes "\<And>a s. follows_order ls (calls (log_of (nxt a s)))"
  shows "follows_order ls (calls (log_of (run_body l nxt b s)))"
proof (induction b arbitrary: s)
  case (CallNext a k)
  show ?case
  proof (cases "nxt a s")
    case (fields res s' t)
    have t: "follows_order ls (calls t)" using assms [of a s] fields by simp
    show ?thesis
    proof (cases res)
      case (Inl e)
      with fields t show ?thesis by simp
    next
      case (Inr r)
      have "follows_order ls (calls (log_of (run_body l nxt (k r) s')))"
        by (rule CallNext.IH) simp
      with fields Inr t show ?thesis
        by (auto simp: calls_append follows_order_append split: prod.splits)
    qed
  qed
qed (auto simp: follows_order_Nil)

lemma chain_Cons_fields:
  "result_of (chain (i # es) d a s) =
     result_of (run_body (entry_label i) (chain es d) (entry_body i a) s)"
  "state_of (chain (i # es) d a s) =
     state_of (run_body (entry_label i) (chain es d) (entry_body i a) s)"
  "log_of (chain (i # es) d a s) =
     Called (Interceptor (entry_label i)) #
       log_of (run_body (entry_label i) (chain es d) (entry_body i a) s)"
  by (simp_all split: prod.splits)

lemma chain_follows_order:
  "follows_order (links es) (calls (log_of (chain es d a s)))"
proof (induction es arbitrary: a s)
  case Nil
  have "follows_order [Default] [Default :: 'a link]"
    by (rule follows_order_Cons) (rule follows_order_Nil)
  then show ?case by (auto simp: links_def split: prod.splits sum.splits)
next
  case (Cons i es)
  have "follows_order (links es)
      (calls (log_of (run_body (entry_label i) (chain es d) (entry_body i a) s)))"
    by (rule run_body_follows_order) (rule Cons.IH)
  then have "follows_order (Interceptor (entry_label i) # links es)
      (Interceptor (entry_label i) #
        calls (log_of (run_body (entry_label i) (chain es d) (entry_body i a) s)))"
    by (rule follows_order_Cons)
  then show ?case unfolding chain_Cons_fields by (simp add: links_def)
qed

lemma run_body_raise_is_last:
  assumes "\<And>a s. raise_is_last (nxt a s)"
  shows "raise_is_last (run_body l nxt b s)"
proof (induction b arbitrary: s)
  case (CallNext a k)
  show ?case
  proof (cases "nxt a s")
    case (fields res s' t)
    have t: "raise_is_last (res, s', t)" using assms [of a s] fields by simp
    show ?thesis
    proof (cases res)
      case (Inl e)
      with fields t show ?thesis by simp
    next
      case (Inr r)
      have quiet: "raises t = []" using t Inr by (simp add: raise_is_last_def)
      have ih: "raise_is_last (run_body l nxt (k r) s')"
        by (rule CallNext.IH) simp
      obtain res' s'' t' where out: "run_body l nxt (k r) s' = (res', s'', t')"
        by (cases "run_body l nxt (k r) s'")
      have "raise_is_last (res', s'', t @ t')"
      proof (cases res')
        case (Inl e)
        with ih out obtain l' t0 where "t' = t0 @ [Raised l' e]" and "raises t0 = []"
          by (auto simp: raise_is_last_def)
        then have "t @ t' = (t @ t0) @ [Raised l' e] \<and> raises (t @ t0) = []"
          using quiet by (simp add: raises_append)
        then have "\<exists>l t1. t @ t' = t1 @ [Raised l e] \<and> raises t1 = []" by blast
        then show ?thesis unfolding raise_is_last_def using Inl by simp
      next
        case (Inr r')
        with ih out quiet show ?thesis by (simp add: raise_is_last_def raises_append)
      qed
      with fields Inr out show ?thesis by simp
    qed
  qed
qed (auto simp: raise_is_last_def)

lemma chain_raise_is_last: "raise_is_last (chain es d a s)"
proof (induction es arbitrary: a s)
  case Nil
  show ?case
  proof (cases "d a s")
    case (Pair res s')
    show ?thesis
    proof (cases res)
      case (Inl e)
      have "\<exists>l t1. [Called Default, Raised Default e] = t1 @ [Raised l e] \<and>
          raises t1 = []"
        by (intro exI [of _ Default] exI [of _ "[Called Default]"]) simp
      then show ?thesis using Pair Inl unfolding raise_is_last_def by simp
    next
      case (Inr r)
      with Pair show ?thesis by (simp add: raise_is_last_def)
    qed
  qed
next
  case (Cons i es)
  have ih: "raise_is_last (run_body (entry_label i) (chain es d) (entry_body i a) s)"
    by (rule run_body_raise_is_last) (rule Cons.IH)
  obtain res s' t where out:
    "run_body (entry_label i) (chain es d) (entry_body i a) s = (res, s', t)"
    by (cases "run_body (entry_label i) (chain es d) (entry_body i a) s")
  have "raise_is_last (res, s', Called (Interceptor (entry_label i)) # t)"
  proof (cases res)
    case (Inl e)
    with ih out obtain l' t0 where "t = t0 @ [Raised l' e]" and "raises t0 = []"
      by (auto simp: raise_is_last_def)
    then have "Called (Interceptor (entry_label i)) # t =
        (Called (Interceptor (entry_label i)) # t0) @ [Raised l' e] \<and>
        raises (Called (Interceptor (entry_label i)) # t0) = []" by simp
    then have "\<exists>l t1. Called (Interceptor (entry_label i)) # t = t1 @ [Raised l e] \<and>
        raises t1 = []" by blast
    then show ?thesis unfolding raise_is_last_def using Inl by simp
  next
    case (Inr r)
    with ih out show ?thesis by (simp add: raise_is_last_def)
  qed
  with out show ?case by simp
qed

subsection \<open>Interceptors that forward once, relay, or short-circuit\<close>

lemma run_body_calls_next_once:
  assumes "\<And>a s. calls (log_of (nxt a s)) = L"
  shows "calls_next_once b \<Longrightarrow> calls (log_of (run_body l nxt b s)) = L"
proof (induction b arbitrary: s)
  case (CallNext a k)
  show ?case
  proof (cases "nxt a s")
    case (fields res s' t)
    have t: "calls t = L" using assms [of a s] fields by simp
    show ?thesis
    proof (cases res)
      case (Inl e)
      with fields t show ?thesis by simp
    next
      case (Inr r)
      from CallNext.prems obtain v where "returns_value v (k r)" by auto
      then have "log_of (run_body l nxt (k r) s') = []"
        by (simp add: run_body_returns_value)
      with fields Inr t show ?thesis by (auto split: prod.splits)
    qed
  qed
qed auto

lemma chain_pass_through:
  "(\<forall>i \<in> set es. \<forall>a. calls_next_once (entry_body i a)) \<Longrightarrow>
   calls (log_of (chain es d a s)) = links es"
proof (induction es arbitrary: a s)
  case Nil
  show ?case by (simp add: links_def split: prod.splits sum.splits)
next
  case (Cons i es)
  have "calls (log_of (run_body (entry_label i) (chain es d) (entry_body i a) s)) = links es"
    by (rule run_body_calls_next_once) (use Cons in auto)
  then show ?case unfolding chain_Cons_fields by (simp add: links_def)
qed

lemma chain_short_circuit_calls:
  assumes "\<forall>a. never_calls_next (entry_body i a)"
  shows "set (calls (log_of (chain (pre @ i # post) d a s))) \<subseteq>
    (\<lambda>x. Interceptor (entry_label x)) ` set (pre @ [i])"
proof (induction pre arbitrary: a s)
  case Nil
  have "calls (log_of (run_body (entry_label i) (chain post d) (entry_body i a) s)) = []"
    by (rule run_body_never_calls_next_calls) (use assms in simp)
  then show ?case unfolding append_Nil chain_Cons_fields by simp
next
  case (Cons x pre)
  have "set (calls (log_of (run_body (entry_label x) (chain (pre @ i # post) d) (entry_body x a) s)))
      \<subseteq> (\<lambda>x. Interceptor (entry_label x)) ` set (pre @ [i])"
    by (rule run_body_calls_subset) (rule Cons.IH)
  then show ?case unfolding append_Cons chain_Cons_fields by auto
qed

subsection \<open>What reaches an interceptor, and what it answers\<close>


lemma run_body_answer_without_next:
  "answer_without_next b s = Some res \<Longrightarrow>
   result_of (run_body l nxt b s) = res \<and>
   log_of (run_body l nxt b s) =
     (case res of Inl e \<Rightarrow> [Raised (Interceptor l) e] | Inr r \<Rightarrow> [])"
  by (induction b arbitrary: s) auto


lemma chain_answer_first:
  assumes "answer_without_next (entry_body i a) s = Some res"
  shows "result_of (chain (i # post) d a s) = res"
    and "calls (log_of (chain (i # post) d a s)) = [Interceptor (entry_label i)]"
    and "log_of (chain (i # post) d a s) =
      Called (Interceptor (entry_label i)) #
        (case res of Inl e \<Rightarrow> [Raised (Interceptor (entry_label i)) e] | Inr r \<Rightarrow> [])"
proof -
  from run_body_answer_without_next [OF assms, of "entry_label i" "chain post d"]
  have r: "result_of (run_body (entry_label i) (chain post d) (entry_body i a) s) = res"
    and l: "log_of (run_body (entry_label i) (chain post d) (entry_body i a) s) =
      (case res of Inl e \<Rightarrow> [Raised (Interceptor (entry_label i)) e] | Inr r \<Rightarrow> [])"
    by simp_all
  show "result_of (chain (i # post) d a s) = res" unfolding chain_Cons_fields by (rule r)
  show "log_of (chain (i # post) d a s) =
      Called (Interceptor (entry_label i)) #
        (case res of Inl e \<Rightarrow> [Raised (Interceptor (entry_label i)) e] | Inr r \<Rightarrow> [])"
    unfolding chain_Cons_fields by (simp add: l)
  then show "calls (log_of (chain (i # post) d a s)) = [Interceptor (entry_label i)]"
    by (simp split: sum.splits)
qed










lemma run_body_forwarded_error:
  "forwarded b s = Some (a', s') \<Longrightarrow> nxt a' s' = (Inl e, s1, t) \<Longrightarrow>
   run_body l nxt b s = (Inl e, s1, t)"
  by (induction b arbitrary: s) auto

lemma chain_raise_before_next:
  assumes "answer_without_next (entry_body i a') s' = Some (Inl e)"
  shows "reaches pre a s = Some (a', s') \<Longrightarrow>
    result_of (chain (pre @ i # post) d a s) = Inl e \<and>
    log_of (chain (pre @ i # post) d a s) =
      map (\<lambda>x. Called (Interceptor (entry_label x))) (pre @ [i]) @
      [Raised (Interceptor (entry_label i)) e]"
proof (induction pre arbitrary: a s)
  case Nil
  then have eq: "a = a'" "s = s'" by simp_all
  show ?case unfolding eq append_Nil
    using chain_answer_first(1,3) [OF assms, of post d] by simp
next
  case (Cons x pre)
  from Cons.prems obtain a1 s1 where fw: "forwarded (entry_body x a) s = Some (a1, s1)"
    and r: "reaches pre a1 s1 = Some (a', s')"
    by (auto split: option.splits)
  let ?L = "map (\<lambda>x. Called (Interceptor (entry_label x))) (pre @ [i]) @
      [Raised (Interceptor (entry_label i)) e]"
  from Cons.IH [OF r] have "result_of (chain (pre @ i # post) d a1 s1) = Inl e"
    and "log_of (chain (pre @ i # post) d a1 s1) = ?L" by simp_all
  then obtain s2 where "chain (pre @ i # post) d a1 s1 = (Inl e, s2, ?L)"
    by (cases "chain (pre @ i # post) d a1 s1") auto
  with fw have "run_body (entry_label x) (chain (pre @ i # post) d) (entry_body x a) s =
      (Inl e, s2, ?L)"
    by (rule run_body_forwarded_error)
  then show ?case unfolding append_Cons chain_Cons_fields by simp
qed

lemma calls_map_Called: "calls (map (\<lambda>x. Called (f x)) xs @ [Raised l e]) = map f xs"
  by (induction xs) auto

subsection \<open>Call sequences that do not depend on the state\<close>





subsection \<open>Listeners\<close>












subsection \<open>Evaluating the concrete hooks\<close>

lemmas hook_eval =
  interception_register_all_def interception_register_def new_interception_hook_def
  interception_invoke_def plain_default_def unimplemented_default_def stateful_default_def
  pass_through_def shifting_def doubling_def short_circuit_def echo_def guard_def
  late_raise_def caching_def tally_def answering_def twice_def links_def entry_of_def


subsection \<open>The claims about InterceptionHook\<close>

text \<open>
  Claim C1. For every sequence of registrations on a fresh InterceptionHook, the chain is
  the stable sort of the registrations by priority: ascending priority (strictly so when
  the priorities are distinct), equal priorities in registration order. Every
  \<^verbatim>\<open>invoke\<close> walks that chain in order, the default last: at every moment of the run
  the links called so far are an initial segment of the interceptors in chain order
  followed by the default; and when every interceptor forwards to \<^verbatim>\<open>next\<close> once,
  the calls are exactly the interceptors in chain order and then the default.
\<close>

theorem invoke_visits_by_priority:
  fixes regs :: "('l \<times> int option \<times> ('a \<Rightarrow> ('a, 'r, 'e, 's) body)) list"
    and d :: "'a \<Rightarrow> 's \<Rightarrow> ('e + 'r) \<times> 's" and p0 a s
  defines "h \<equiv> interception_register_all (new_interception_hook d p0) regs"
  shows "interceptors h = sort_key entry_priority (map (entry_of p0) regs) \<and>
    sorted (map entry_priority (interceptors h)) \<and>
    (\<forall>p. filter (\<lambda>i. entry_priority i = p) (interceptors h) =
         filter (\<lambda>i. entry_priority i = p) (map (entry_of p0) regs)) \<and>
    follows_order (links (interceptors h)) (calls (log_of (interception_invoke h a s))) \<and>
    ((\<forall>i \<in> set (interceptors h). \<forall>a'. calls_next_once (entry_body i a')) \<longrightarrow>
       calls (log_of (interception_invoke h a s)) = links (interceptors h))"
proof -
  have es: "interceptors h = sort_key entry_priority (map (entry_of p0) regs)"
    unfolding h_def by (rule registered_interceptors)
  have "sorted (map entry_priority (interceptors h))" by (simp add: es)
  moreover have "filter (\<lambda>i. entry_priority i = p) (interceptors h) =
      filter (\<lambda>i. entry_priority i = p) (map (entry_of p0) regs)" for p
    unfolding es by (rule sort_key_stable)
  moreover have "follows_order (links (interceptors h)) (calls (log_of (interception_invoke h a s)))"
    unfolding interception_invoke_def by (rule chain_follows_order)
  moreover have "calls (log_of (interception_invoke h a s)) = links (interceptors h)"
    if "\<forall>i \<in> set (interceptors h). \<forall>a'. calls_next_once (entry_body i a')"
    unfolding interception_invoke_def using that by (rule chain_pass_through)
  ultimately show ?thesis using es by blast
qed

text \<open>
  Scenario C of the specification: priorities 10 and 5 are registered in that order, and
  the priority-5 interceptor is called first, then the priority-10 one, then the default.
\<close>

theorem invoke_visits_by_priority_witness:
  "calls (log_of (interception_invoke
      (interception_register_all (new_interception_hook plain_default 0) scenario_c_regs) 1 None)) =
     [Interceptor ''five'', Interceptor ''ten'', Default]"
proof -
  let ?h = "interception_register_all (new_interception_hook plain_default 0) scenario_c_regs"
  have es: "map entry_label (interceptors ?h) = [''five'', ''ten'']"
    by (simp add: scenario_c_regs_def hook_eval)
  have once: "\<forall>i \<in> set (interceptors ?h). \<forall>a'. calls_next_once (entry_body i a')"
    by (simp add: scenario_c_regs_def hook_eval)
  have "calls (log_of (interception_invoke ?h 1 None)) = links (interceptors ?h)"
    using invoke_visits_by_priority [of plain_default 0 scenario_c_regs 1 None] once by blast
  also have "\<dots> = [Interceptor ''five'', Interceptor ''ten'', Default]"
    by (simp add: scenario_c_regs_def hook_eval)
  finally show ?thesis .
qed

text \<open>
  Claim C2. With no interceptor registered, \<^verbatim>\<open>invoke\<close> returns exactly what the default
  callable returns (or raises) for the same arguments, leaves the state the default
  leaves, and calls nothing but the default.
\<close>

theorem invoke_without_interceptors:
  "interception_invoke (new_interception_hook d p0) a s =
     (fst (d a s), snd (d a s),
      case fst (d a s) of
        Inl e \<Rightarrow> [Called Default, Raised Default e]
      | Inr r \<Rightarrow> [Called Default]) \<and>
   result_of (interception_invoke (new_interception_hook d p0) a s) = fst (d a s) \<and>
   calls (log_of (interception_invoke (new_interception_hook d p0) a s)) = [Default]"
  by (simp add: interception_invoke_def new_interception_hook_def split: prod.splits sum.splits)




text \<open>
  Claim C4 as stated fails for an interceptor that raises after its \<^verbatim>\<open>next\<close> call has
  returned, which section 4.2 allows (an interceptor calls \<^verbatim>\<open>next\<close> and may raise):
  by the time it raises, the links behind it have run. Here the default has been called
  before the one interceptor raises.
\<close>

theorem raise_runs_later_links_counterexample:
  "log_of (interception_invoke late_hook 1 None) =
     [Called (Interceptor ''late''), Called Default, Raised (Interceptor ''late'') ''late''] \<and>
   Raised (Interceptor ''late'') ''late'' \<in> set (log_of (interception_invoke late_hook 1 None)) \<and>
   Default \<in> set (calls (log_of (interception_invoke late_hook 1 None)))"
  by (simp add: late_hook_def hook_eval)

text \<open>
  Claim C4, amended. If an interceptor raises during \<^verbatim>\<open>invoke\<close>, the raise is the last
  event of the run, so that nothing runs after it, and the result of \<^verbatim>\<open>invoke\<close> is
  that same error; conversely an error that comes out of \<^verbatim>\<open>invoke\<close> is the one error
  that was raised. If the interceptor raises before it calls \<^verbatim>\<open>next\<close>, with the
  arguments and in the state that reach it through the interceptors \<open>pre\<close> ahead of
  it, then the run is exactly: the interceptors of \<open>pre\<close> and the raising one are called,
  once each and in chain order, then the raise; no later interceptor and not the default
  is called. This holds whatever the interceptors of \<open>pre\<close> do once \<^verbatim>\<open>next\<close> has
  come back to them, and whatever the raising interceptor does for other arguments or in
  other states. And an interceptor that never calls \<^verbatim>\<open>next\<close> keeps every link behind
  it, the default included, from being called at all.
\<close>

theorem raise_aborts_chain:
  "(Raised (Interceptor l) e \<in> set (log_of (interception_invoke h a s)) \<longrightarrow>
      result_of (interception_invoke h a s) = Inl e \<and>
      (\<exists>t0. log_of (interception_invoke h a s) = t0 @ [Raised (Interceptor l) e] \<and>
            raises t0 = [])) \<and>
   (result_of (interception_invoke h a s) = Inl e \<longrightarrow>
      (\<exists>l' t0. log_of (interception_invoke h a s) = t0 @ [Raised l' e] \<and> raises t0 = [])) \<and>
   (interceptors h = pre @ i # post \<and> reaches pre a s = Some (a', s') \<and>
      answer_without_next (entry_body i a') s' = Some (Inl e) \<longrightarrow>
      result_of (interception_invoke h a s) = Inl e \<and>
      log_of (interception_invoke h a s) =
        map (\<lambda>x. Called (Interceptor (entry_label x))) (pre @ [i]) @
        [Raised (Interceptor (entry_label i)) e] \<and>
      calls (log_of (interception_invoke h a s)) =
        map (\<lambda>x. Interceptor (entry_label x)) (pre @ [i]) \<and>
      Default \<notin> set (calls (log_of (interception_invoke h a s)))) \<and>
   (interceptors h = pre @ i # post \<and> (\<forall>a'. never_calls_next (entry_body i a')) \<longrightarrow>
      set (calls (log_of (interception_invoke h a s))) \<subseteq>
        (\<lambda>x. Interceptor (entry_label x)) ` set (pre @ [i]) \<and>
      Default \<notin> set (calls (log_of (interception_invoke h a s))))"
proof -
  let ?out = "interception_invoke h a s"
  have last: "raise_is_last ?out"
    unfolding interception_invoke_def by (rule chain_raise_is_last)
  have one: "result_of ?out = Inl e \<and>
      (\<exists>t0. log_of ?out = t0 @ [Raised (Interceptor l) e] \<and> raises t0 = [])"
    if mem: "Raised (Interceptor l) e \<in> set (log_of ?out)"
  proof (cases "result_of ?out")
    case (Inr r)
    with last have "raises (log_of ?out) = []" by (simp add: raise_is_last_def)
    then have "Raised (Interceptor l) e \<notin> set (log_of ?out)"
      by (rule raises_empty_no_raise)
    with mem show ?thesis by simp
  next
    case (Inl e')
    with last obtain l' t0 where t0: "log_of ?out = t0 @ [Raised l' e']" "raises t0 = []"
      by (auto simp: raise_is_last_def)
    from t0(2) have "Raised (Interceptor l) e \<notin> set t0" by (rule raises_empty_no_raise)
    with mem t0(1) have "l' = Interceptor l \<and> e' = e" by simp
    with Inl t0 show ?thesis by simp
  qed
  have two: "\<exists>l' t0. log_of ?out = t0 @ [Raised l' e] \<and> raises t0 = []"
    if "result_of ?out = Inl e"
    using last that by (simp add: raise_is_last_def)
  have three: "result_of ?out = Inl e \<and>
      log_of ?out = map (\<lambda>x. Called (Interceptor (entry_label x))) (pre @ [i]) @
        [Raised (Interceptor (entry_label i)) e] \<and>
      calls (log_of ?out) = map (\<lambda>x. Interceptor (entry_label x)) (pre @ [i]) \<and>
      Default \<notin> set (calls (log_of ?out))"
    if es: "interceptors h = pre @ i # post" and r: "reaches pre a s = Some (a', s')"
      and ans: "answer_without_next (entry_body i a') s' = Some (Inl e)"
  proof -
    have *: "result_of ?out = Inl e \<and>
        log_of ?out = map (\<lambda>x. Called (Interceptor (entry_label x))) (pre @ [i]) @
          [Raised (Interceptor (entry_label i)) e]"
      unfolding interception_invoke_def es using ans r by (rule chain_raise_before_next)
    then have c: "calls (log_of ?out) = map (\<lambda>x. Interceptor (entry_label x)) (pre @ [i])"
      by (simp only: calls_map_Called)
    then have "Default \<notin> set (calls (log_of ?out))" by auto
    with * c show ?thesis by simp
  qed
  have four: "set (calls (log_of ?out)) \<subseteq> (\<lambda>x. Interceptor (entry_label x)) ` set (pre @ [i]) \<and>
      Default \<notin> set (calls (log_of ?out))"
    if "interceptors h = pre @ i # post" and nev: "\<forall>a'. never_calls_next (entry_body i a')"
  proof -
    have "set (calls (log_of ?out)) \<subseteq> (\<lambda>x. Interceptor (entry_label x)) ` set (pre @ [i])"
      unfolding interception_invoke_def that(1)
      by (rule chain_short_circuit_calls) (rule nev)
    moreover from this have "Default \<notin> set (calls (log_of ?out))"
      by (rule calls_no_default)
    ultimately show ?thesis by simp
  qed
  have c1: "Raised (Interceptor l) e \<in> set (log_of ?out) \<longrightarrow>
      result_of ?out = Inl e \<and>
      (\<exists>t0. log_of ?out = t0 @ [Raised (Interceptor l) e] \<and> raises t0 = [])"
    using one by (rule impI)
  have c2: "result_of ?out = Inl e \<longrightarrow>
      (\<exists>l' t0. log_of ?out = t0 @ [Raised l' e] \<and> raises t0 = [])"
    using two by (rule impI)
  have c3: "interceptors h = pre @ i # post \<and> reaches pre a s = Some (a', s') \<and>
      answer_without_next (entry_body i a') s' = Some (Inl e) \<longrightarrow>
      result_of ?out = Inl e \<and>
      log_of ?out = map (\<lambda>x. Called (Interceptor (entry_label x))) (pre @ [i]) @
        [Raised (Interceptor (entry_label i)) e] \<and>
      calls (log_of ?out) = map (\<lambda>x. Interceptor (entry_label x)) (pre @ [i]) \<and>
      Default \<notin> set (calls (log_of ?out))"
  proof (rule impI)
    assume h: "interceptors h = pre @ i # post \<and> reaches pre a s = Some (a', s') \<and>
      answer_without_next (entry_body i a') s' = Some (Inl e)"
    show "result_of ?out = Inl e \<and>
      log_of ?out = map (\<lambda>x. Called (Interceptor (entry_label x))) (pre @ [i]) @
        [Raised (Interceptor (entry_label i)) e] \<and>
      calls (log_of ?out) = map (\<lambda>x. Interceptor (entry_label x)) (pre @ [i]) \<and>
      Default \<notin> set (calls (log_of ?out))"
      by (rule three) (use h in simp_all)
  qed
  have c4: "interceptors h = pre @ i # post \<and> (\<forall>a'. never_calls_next (entry_body i a')) \<longrightarrow>
      set (calls (log_of ?out)) \<subseteq> (\<lambda>x. Interceptor (entry_label x)) ` set (pre @ [i]) \<and>
      Default \<notin> set (calls (log_of ?out))"
  proof (rule impI)
    assume h: "interceptors h = pre @ i # post \<and> (\<forall>a'. never_calls_next (entry_body i a'))"
    show "set (calls (log_of ?out)) \<subseteq> (\<lambda>x. Interceptor (entry_label x)) ` set (pre @ [i]) \<and>
      Default \<notin> set (calls (log_of ?out))"
      by (rule four) (use h in simp_all)
  qed
  from c1 c2 c3 c4 show ?thesis by (intro conjI)
qed

text \<open>
  A guard that raises on a negative argument and forwards otherwise, behind an interceptor
  that increases the argument: from \<open>- 2\<close> the guard receives \<open>- 1\<close> and raises, and
  neither the interceptor behind it nor the default is called; from \<open>1\<close> every link is
  called.
\<close>

theorem raise_aborts_chain_witness:
  "reaches [\<lparr>entry_label = ''shift'', entry_priority = 1, entry_body = shifting\<rparr>] (- 2) None =
     Some (- 1, None) \<and>
   answer_without_next (guard (- 1)) None = Some (Inl ''denied'') \<and>
   result_of (interception_invoke guard_hook (- 2) None) = Inl ''denied'' \<and>
   log_of (interception_invoke guard_hook (- 2) None) =
     [Called (Interceptor ''shift''), Called (Interceptor ''guard''),
      Raised (Interceptor ''guard'') ''denied''] \<and>
   Default \<notin> set (calls (log_of (interception_invoke guard_hook (- 2) None))) \<and>
   calls (log_of (interception_invoke guard_hook 1 None)) =
     [Interceptor ''shift'', Interceptor ''guard'', Interceptor ''inner'', Default]"
proof -
  let ?shift = "\<lparr>entry_label = ''shift'', entry_priority = 1, entry_body = shifting\<rparr>"
  let ?guard = "\<lparr>entry_label = ''guard'', entry_priority = 2, entry_body = guard\<rparr>"
  let ?inner = "\<lparr>entry_label = ''inner'', entry_priority = 3, entry_body = pass_through\<rparr>"
  have es: "interceptors guard_hook = [?shift] @ ?guard # [?inner]"
    by (simp add: guard_hook_def hook_eval)
  have r: "reaches [?shift] (- 2) None = Some (- 1, None)" by (simp add: shifting_def)
  have ans: "answer_without_next (entry_body ?guard (- 1)) None = Some (Inl ''denied'')"
    by (simp add: guard_def)
  from raise_aborts_chain [of "''guard''" "''denied''" guard_hook "- 2" None
      "[?shift]" ?guard "[?inner]" "- 1" None] es r ans
  have "result_of (interception_invoke guard_hook (- 2) None) = Inl ''denied'' \<and>
      log_of (interception_invoke guard_hook (- 2) None) =
        map (\<lambda>x. Called (Interceptor (entry_label x))) ([?shift] @ [?guard]) @
        [Raised (Interceptor (entry_label ?guard)) ''denied''] \<and>
      Default \<notin> set (calls (log_of (interception_invoke guard_hook (- 2) None)))"
    by blast
  moreover have "calls (log_of (interception_invoke guard_hook 1 None)) =
      [Interceptor ''shift'', Interceptor ''guard'', Interceptor ''inner'', Default]"
    by (simp add: guard_hook_def hook_eval)
  ultimately show ?thesis using r ans by simp
qed




subsection \<open>The claim about NotificationHook\<close>




section \<open>Properties of the directive contribution point\<close>

text \<open>
  Claim C7. Registering a directive under a name that is already present makes the second
  registration overwrite the first, and no RegistrationError is raised: of the two
  behaviours the claim allows, exactly one holds for every pair of registrations under
  the same key, the overwrite. Scenario D: \<^verbatim>\<open>"auth"\<close> registered twice on the
  dictionary as the module creates it leaves the second implementation under the name.
\<close>

theorem directive_collision_overwrites:
  "register_directive key d1 hook = Inr (hook(key \<mapsto> d1)) \<and>
   register_directive key d2 (hook(key \<mapsto> d1)) = Inr (hook(key \<mapsto> d2)) \<and>
   (hook(key \<mapsto> d2)) key = Some d2 \<and>
   register_directive key d2 (hook(key \<mapsto> d1)) \<noteq> Inl RegistrationError \<and>
   ((register_directive key d2 (hook(key \<mapsto> d1)) = Inl RegistrationError) \<noteq>
    (\<exists>hook'. register_directive key d2 (hook(key \<mapsto> d1)) = Inr hook' \<and> hook' key = Some d2)) \<and>
   register_directive ''auth'' d1 graphql_directives_hook = Inr [''auth'' \<mapsto> d1] \<and>
   register_directive ''auth'' d2 [''auth'' \<mapsto> d1] = Inr [''auth'' \<mapsto> d2]"
  by (simp add: register_directive_def graphql_directives_hook_def)

section \<open>Properties of the theme admin views\<close>

subsection \<open>Activating a theme\<close>

lemma themes_after_activation:
  "themes (set_theme_as_active clear theme st) k =
     (case themes st k of None \<Rightarrow> None
      | Some r \<Rightarrow> Some (r\<lparr>is_active := (k = pk theme)\<rparr>))"
  by (cases "k = pk theme")
    (auto simp: set_theme_as_active_def objects_update_def objects_filter_pk_update_def Let_def
      split: option.splits)

lemma active_after_activation:
  "active_themes (themes (set_theme_as_active clear theme st)) = {pk theme} \<inter> dom (themes st)"
  by (auto simp: active_themes_def themes_after_activation split: option.splits)

text \<open>
  Claim C8. After \<^verbatim>\<open>set_theme_as_active(request, theme)\<close>, whatever the table was
  before: no theme other than the given one is marked active, so at most one theme is;
  the table has the rows it had; and the given theme, when it is a row of the table, is
  the one active theme. \<^verbatim>\<open>ActivateTheme.button_action\<close> leaves the table as
  \<^verbatim>\<open>set_theme_as_active\<close> does.
\<close>

theorem one_active_theme:
  "active_themes (themes (set_theme_as_active clear theme st)) \<subseteq> {pk theme} \<and>
   card (active_themes (themes (set_theme_as_active clear theme st))) \<le> 1 \<and>
   dom (themes (set_theme_as_active clear theme st)) = dom (themes st) \<and>
   (pk theme \<in> dom (themes st) \<longrightarrow>
      active_themes (themes (set_theme_as_active clear theme st)) = {pk theme}) \<and>
   themes (button_action clear theme st) = themes (set_theme_as_active clear theme st)"
proof -
  let ?A = "active_themes (themes (set_theme_as_active clear theme st))"
  have sub: "?A \<subseteq> {pk theme}" by (simp add: active_after_activation)
  have "card ?A \<le> card {pk theme}" by (rule card_mono) (use sub in auto)
  moreover have "dom (themes (set_theme_as_active clear theme st)) = dom (themes st)"
    by (auto simp: themes_after_activation split: option.splits)
  moreover have "themes (button_action clear theme st) =
      themes (set_theme_as_active clear theme st)"
    by (simp add: button_action_def Let_def)
  ultimately show ?thesis using sub by (auto simp: active_after_activation)
qed

theorem one_active_theme_witness:
  "pk example_theme \<in> dom (themes example_site) \<and>
   active_themes (themes example_site) = {1} \<and>
   active_themes (themes (set_theme_as_active Suc example_theme example_site)) = {2}"
proof -
  have row: "pk example_theme \<in> dom (themes example_site)"
    by (simp add: example_theme_def example_site_def)
  have before: "active_themes (themes example_site) = {1}"
    by (auto simp: active_themes_def example_site_def split: if_splits)
  have "active_themes (themes (set_theme_as_active Suc example_theme example_site)) =
      {pk example_theme}"
    using one_active_theme [of Suc example_theme example_site] row by blast
  then show ?thesis using row before by (simp add: example_theme_def)
qed

subsection \<open>Deleting assets\<close>

lemma those_eq_None: "those xs = None \<longleftrightarrow> None \<in> set xs"
  by (induction xs) (auto split: option.splits)

lemma those_eq_Some: "those xs = Some ys \<Longrightarrow> xs = map Some ys"
  by (induction xs arbitrary: ys) (auto split: option.splits)

lemma clean_items_list_None:
  "clean_items_list int_of posted = None \<longleftrightarrow> (\<exists>i \<in> set (take 20 posted). int_of i = None)"
proof -
  have "clean_items_list int_of posted = None \<longleftrightarrow> None \<in> set (map int_of (take 20 posted))"
    unfolding those_eq_None [symmetric]
    by (simp add: clean_items_list_def split: option.splits)
  also have "\<dots> \<longleftrightarrow> (\<exists>i \<in> set (take 20 posted). int_of i = None)"
    by (simp add: image_iff) metis
  finally show ?thesis .
qed

lemma clean_items_list_Some:
  assumes "clean_items_list int_of posted = Some items"
  shows "distinct items" and "length items \<le> 20"
    and "set items = {n. \<exists>i \<in> set (take 20 posted). int_of i = Some n}"
proof -
  from assms obtain ns where ns: "those (map int_of (take 20 posted)) = Some ns"
    and items: "items = remdups ns"
    by (auto simp: clean_items_list_def split: option.splits)
  from ns have eq: "map int_of (take 20 posted) = map Some ns" by (rule those_eq_Some)
  then have "length ns = length (take 20 posted)" by (metis length_map)
  then have "length ns \<le> 20" by simp
  then have "length (remdups ns) \<le> 20"
    by (rule order_trans [OF length_remdups_leq])
  then show "length items \<le> 20" by (simp add: items)
  show "distinct items" by (simp add: items)
  have h: "Some ` set ns = int_of ` set (take 20 posted)"
    using eq by (metis set_map)
  have "n \<in> set ns \<longleftrightarrow> (\<exists>i \<in> set (take 20 posted). int_of i = Some n)" for n
  proof
    assume "n \<in> set ns"
    then have "Some n \<in> int_of ` set (take 20 posted)" using h by blast
    then show "\<exists>i \<in> set (take 20 posted). int_of i = Some n" by force
  next
    assume "\<exists>i \<in> set (take 20 posted). int_of i = Some n"
    then have "Some n \<in> Some ` set ns" unfolding h by force
    then show "n \<in> set ns" by blast
  qed
  then show "set items = {n. \<exists>i \<in> set (take 20 posted). int_of i = Some n}"
    by (auto simp: items)
qed

lemma delete_asset_upd: "delete_asset q i = q(i := None)"
  by (auto simp: delete_asset_def split: option.splits)

text \<open>
  The loop over the set deletes exactly the keys of the set, whatever the order in which
  the set is walked.
\<close>

lemma foldl_delete_asset_at:
  "foldl delete_asset q items k = (if k \<in> set items then None else q k)"
  by (induction items arbitrary: q) (simp_all add: delete_asset_upd)

lemma foldl_delete_asset: "foldl delete_asset q items = q |` (- set items)"
  by (rule ext) (simp add: foldl_delete_asset_at restrict_map_def)

text \<open>
  Claim C9. For every request to a DeleteThemeAssets view (a POST runs the action, any
  other method changes nothing): the assets deleted are at most 20, each of them the
  integer value of one of the first 20 posted items, and nothing else of the table
  changes; and when one of the first 20 posted items is not parseable as an integer,
  \<^verbatim>\<open>clean_items_list\<close> returns None and the state is left as it was, no asset deleted.
\<close>

theorem delete_assets_bounded:
  fixes st :: "'x assets_state" and int_of verb posted
  defines "st' \<equiv> delete_assets_dispatch int_of verb posted st"
  shows "finite (deleted_assets st st') \<and> card (deleted_assets st st') \<le> 20 \<and>
    deleted_assets st st' \<subseteq> {n. \<exists>i \<in> set (take 20 posted). int_of i = Some n} \<and>
    queryset st' = queryset st |` (- deleted_assets st st') \<and>
    ((\<exists>i \<in> set (take 20 posted). int_of i = None) \<longrightarrow>
       clean_items_list int_of posted = None \<and> st' = st)"
proof (cases "verb = ''POST'' \<and>
    (\<exists>items. clean_items_list int_of posted = Some items \<and> items \<noteq> [])")
  case True
  then obtain items where c: "clean_items_list int_of posted = Some items" and ne: "items \<noteq> []"
    by blast
  have q: "queryset st' = queryset st |` (- set items)"
    using True c ne
    by (simp add: st'_def delete_assets_dispatch_def delete_assets_action_def foldl_delete_asset)
  have d: "deleted_assets st st' = dom (queryset st) \<inter> set items"
    by (auto simp: deleted_assets_def q restrict_map_def dom_def split: if_splits)
  have fin: "finite (deleted_assets st st')" by (simp add: d)
  have "card (deleted_assets st st') \<le> card (set items)"
    by (rule card_mono) (auto simp: d)
  also have "\<dots> \<le> length items" by (rule card_length)
  also have "\<dots> \<le> 20" by (rule clean_items_list_Some(2) [OF c])
  finally have card: "card (deleted_assets st st') \<le> 20" .
  have sub: "deleted_assets st st' \<subseteq> {n. \<exists>i \<in> set (take 20 posted). int_of i = Some n}"
    using clean_items_list_Some(3) [OF c] by (auto simp: d)
  have q': "queryset st' = queryset st |` (- deleted_assets st st')"
  proof (rule ext)
    fix k show "queryset st' k = (queryset st |` (- deleted_assets st st')) k"
      by (cases "queryset st k") (auto simp: q d restrict_map_def)
  qed
  have "\<not> (\<exists>i \<in> set (take 20 posted). int_of i = None)"
    using c clean_items_list_None [of int_of posted] by simp
  with fin card sub q' show ?thesis by blast
next
  case False
  then have same: "st' = st"
    by (auto simp: st'_def delete_assets_dispatch_def delete_assets_action_def
        split: option.splits)
  have "deleted_assets st st' = {}" by (simp add: same deleted_assets_def)
  then show ?thesis
    using same clean_items_list_None [of int_of posted] False
    by (auto simp: restrict_map_def)
qed

theorem delete_assets_bounded_witness:
  "deleted_assets example_assets
     (delete_assets_dispatch decimal ''POST'' [''3'', ''9'', ''3'', ''12''] example_assets) = {3, 9} \<and>
   card {3, 9 :: int} \<le> 20 \<and>
   decimal ''seven'' = None \<and>
   clean_items_list decimal [''3'', ''seven''] = None \<and>
   delete_assets_dispatch decimal ''POST'' [''3'', ''seven''] example_assets = example_assets"
proof -
  have bad: "\<exists>i \<in> set (take 20 [''3'', ''seven'']). decimal i = None"
    by (simp add: decimal_def digit_def)
  have "clean_items_list decimal [''3'', ''seven''] = None \<and>
      delete_assets_dispatch decimal ''POST'' [''3'', ''seven''] example_assets = example_assets"
    using delete_assets_bounded [of example_assets decimal "''POST''" "[''3'', ''seven'']"] bad
    by blast
  moreover have "deleted_assets example_assets
     (delete_assets_dispatch decimal ''POST'' [''3'', ''9'', ''3'', ''12''] example_assets) = {3, 9}"
    by (auto simp: deleted_assets_def delete_assets_dispatch_def delete_assets_action_def
        clean_items_list_def decimal_def digit_def example_assets_def delete_asset_upd
        split: if_splits)
  moreover have "decimal ''seven'' = None" by (simp add: decimal_def digit_def)
  ultimately show ?thesis by simp
qed

subsection \<open>Uploading assets\<close>

text \<open>
  Claim C10. Whenever at least one uploaded asset passed cleaning, also when the form as a
  whole is invalid, \<^verbatim>\<open>UploadThemeAssets.action\<close> saves the form and queues a rebuild of
  the theme's css; when the form is invalid the same request gets the partial-success
  notice, one error message per error of the assets field, and then the success message.
  (An invalid form has errors under the key of its only field, \<^verbatim>\<open>assets\<close>: without that
  key the subscript \<^verbatim>\<open>form.errors["assets"]\<close> raises KeyError before anything is saved.)
\<close>

theorem upload_saves_cleaned_assets:
  assumes "cleaned_assets form = Some assets" and "assets \<noteq> []"
    and "\<not> is_valid form \<longrightarrow> assets_errors form = Some errors"
  shows "upload_assets_action save theme form st =
     Inr (st\<lparr>database := save form (database st),
             build_theme_css_queue := build_theme_css_queue st @ [pk theme],
             upload_messages := upload_messages st @
               (if is_valid form then []
                else (Info, MessagePartialSuccess) # map (\<lambda>e. (Error, FormError e)) errors) @
               [(Success, MessageSuccess)]\<rparr>)"
  using assms by (simp add: upload_assets_action_def truthy_def Let_def)

theorem upload_saves_cleaned_assets_witness:
  "\<not> is_valid example_form \<and>
   upload_assets_action example_save example_theme example_form example_upload_state =
     Inr \<lparr>database = [''site.css''],
          build_theme_css_queue = [2],
          upload_messages =
            [(Info, MessagePartialSuccess),
             (Error, FormError ''logo.exe: file type is not allowed''),
             (Success, MessageSuccess)]\<rparr>"
  using upload_saves_cleaned_assets [of example_form "[''site.css'']"
      "[''logo.exe: file type is not allowed'']" example_save example_theme example_upload_state]
  by (simp add: example_form_def example_save_def example_theme_def example_upload_state_def)

end
